theory Spec2Isabelle
  imports Main "HOL-Library.List_Lexorder"
begin

section \<open>The multiset enumerator \<open>get_multisets_Cpp\<close>\<close>

text \<open>
  The source is one C++ function, \<open>get_multisets_Cpp(int n, int d, arma::uword N)\<close>.
  It rejects \<open>n \<le> 0\<close> and \<open>d < 0\<close> with a \<open>std::runtime_error\<close>, allocates an
  \<open>N\<close> by \<open>d\<close> matrix and a row vector of \<open>d\<close> ones, and then, \<open>N\<close> times, stores the
  row vector into the next row of the matrix and advances it to its successor.

  The embedding keeps the shape of the code. The parameters \<open>n\<close> and \<open>d\<close> are
  \<open>int\<close>s and the unsigned \<open>N\<close> is a \<open>nat\<close>. No arithmetic of the function can
  overflow: the only operations on \<open>int\<close>s are \<open>d - 1\<close> with \<open>0 \<le> d\<close>, \<open>i + 1\<close> with
  \<open>i < d - 1\<close> and \<open>--i\<close> with \<open>0 \<le> i\<close>, and \<open>row_index\<close> is incremented only below \<open>N\<close>.
  The entries of the row vector are doubles holding whole numbers between \<open>1\<close> and
  \<open>n\<close>, which a double represents exactly, so an entry is an \<open>int\<close> here. A row
  vector is a list of entries, and the matrix is the list of its rows, each a list of
  \<open>d\<close> entries, so that a matrix with \<open>N\<close> rows and no column is \<open>N\<close> empty rows.
\<close>

subsection \<open>Errors\<close>

text \<open>
  \<open>InvalidArgument\<close> is the \<open>std::runtime_error\<close> that the function throws itself.
  \<open>AllocationError\<close> is the exception that leaves the constructors of the matrix and of
  the row vector when the memory they ask for cannot be had.
\<close>

datatype error = InvalidArgument | AllocationError

subsection \<open>The successor step (the \<open>for\<close> loop)\<close>

text \<open>
  \<open>v.subvec(first_index, last_index).fill(x)\<close>: the entries at the indices
  \<open>first_index\<close> to \<open>last_index\<close>, both included, become \<open>x\<close>. The code calls it only
  under \<open>i < d - 1\<close>, with \<open>first_index = i + 1\<close> and \<open>last_index = d - 1\<close>, on a vector of
  \<open>d\<close> entries, where the range is never empty and never leaves the vector.
\<close>

definition fill_subvec :: "int list \<Rightarrow> nat \<Rightarrow> nat \<Rightarrow> int \<Rightarrow> int list" where
  "fill_subvec v first_index last_index x =
     take first_index v @ replicate (Suc last_index - first_index) x @ drop (Suc last_index) v"

text \<open>
  The loop \<open>for (int i = d - 1; i >= 0; --i)\<close>, entered at the index \<open>i\<close>: the first
  entry below \<open>n\<close> is incremented, the entries to its right are set to the new value,
  and the loop is left (\<open>break\<close>); an entry that is not below \<open>n\<close> sends the loop to
  the index before. The loop starts at \<open>d - 1\<close> on a vector of \<open>d\<close> entries, so every
  index it reads, \<open>0 \<le> i \<le> d - 1\<close>, is inside the vector.
\<close>

function successor_loop :: "int \<Rightarrow> int \<Rightarrow> int \<Rightarrow> int list \<Rightarrow> int list" where
  "successor_loop n d i current_multiset =
     (if 0 \<le> i then
        (if current_multiset ! nat i < n then
           (let incremented = current_multiset[nat i := current_multiset ! nat i + 1]
            in if i < d - 1
               then fill_subvec incremented (nat (i + 1)) (nat (d - 1)) (incremented ! nat i)
               else incremented)
         else successor_loop n d (i - 1) current_multiset)
      else current_multiset)"
  by pat_completeness auto
termination
  by (relation "measure (\<lambda>(n, d, i, current_multiset). nat (i + 1))") auto

declare successor_loop.simps [simp del]

definition successor :: "int \<Rightarrow> int \<Rightarrow> int list \<Rightarrow> int list" where
  "successor n d current_multiset = successor_loop n d (d - 1) current_multiset"

subsection \<open>The generation loop (the \<open>while\<close> loop)\<close>

record loop_state =
  result_matrix :: "int list list"
  current_multiset :: "int list"
  row_index :: nat

text \<open>
  One pass through the body of \<open>while (row_index < N)\<close>: the current tuple is stored
  in the row \<open>row_index\<close>, which is below \<open>N\<close> and so a row of the matrix,
  \<open>row_index\<close> is incremented, and the current tuple is advanced.
\<close>

definition loop_body :: "int \<Rightarrow> int \<Rightarrow> loop_state \<Rightarrow> loop_state" where
  "loop_body n d s =
     \<lparr>result_matrix = (result_matrix s)[row_index s := current_multiset s],
      current_multiset = successor n d (current_multiset s),
      row_index = row_index s + 1\<rparr>"

function while_loop :: "int \<Rightarrow> int \<Rightarrow> nat \<Rightarrow> loop_state \<Rightarrow> loop_state" where
  "while_loop n d N s =
     (if row_index s < N then while_loop n d N (loop_body n d s) else s)"
  by pat_completeness auto
termination
  by (relation "measure (\<lambda>(n, d, N, s). N - row_index s)") (auto simp: loop_body_def)

declare while_loop.simps [simp del]

subsection \<open>The exported function\<close>

text \<open>
  The state before the loop: the matrix as \<open>arma::mat result_matrix(N, d)\<close> allocates
  it, filled with zeros (the loop overwrites every row of it before the function
  returns), the row vector of \<open>d\<close> ones, and \<open>row_index = 0\<close>. The test of \<open>n\<close> and \<open>d\<close>
  comes first, and the exception it throws is the result \<open>Inl InvalidArgument\<close>.
\<close>

definition initial_state :: "int \<Rightarrow> nat \<Rightarrow> loop_state" where
  "initial_state d N =
     \<lparr>result_matrix = replicate N (replicate (nat d) 0),
      current_multiset = replicate (nat d) 1,
      row_index = 0\<rparr>"

definition get_multisets_Cpp :: "int \<Rightarrow> int \<Rightarrow> nat \<Rightarrow> error + int list list" where
  "get_multisets_Cpp n d N =
     (if n \<le> 0 \<or> d < 0 then Inl InvalidArgument
      else Inr (result_matrix (while_loop n d N (initial_state d N))))"

subsection \<open>The call on a machine: allocation, fresh memory and work\<close>

text \<open>
  \<open>get_multisets_Cpp\<close> above is the call on a machine that has the memory asked for
  and hands it out filled with zeros. The call below is the same code with what the
  machine adds to it. The two constructors are Armadillo's and no part of the source,
  so what they need of the machine is a parameter of the call:
  \<^item> \<open>fits used k\<close> tells whether the allocator, when the call already holds \<open>used\<close>
    matrix entries (doubles), provides \<open>k\<close> more. \<open>arma::mat result_matrix(N, d)\<close> asks
    for \<open>N * d\<close> entries and \<open>arma::rowvec current_multiset(d, arma::fill::ones)\<close> for
    \<open>d\<close> more, in this order; a constructor that does not get its entries throws,
    which ends the call.
  \<^item> \<open>fresh r c\<close> is the value that the entry at row \<open>r\<close> and column \<open>c\<close> of the newly
    allocated matrix holds before the function writes it: zero where the constructor
    fills the matrix, anything where it leaves the memory as it finds it.

  The call returns its result together with the work it has done, in order: the
  allocations that succeeded, and each store of the current tuple into a row of the
  matrix by the body of the loop. The argument test comes before both constructors
  and the loop, as in the source.
\<close>

datatype work = Allocated nat nat | Stored nat "int list"

definition traced_body :: "int \<Rightarrow> int \<Rightarrow> loop_state \<times> work list \<Rightarrow> loop_state \<times> work list" where
  "traced_body n d t =
     (loop_body n d (fst t), snd t @ [Stored (row_index (fst t)) (current_multiset (fst t))])"

function traced_loop ::
  "int \<Rightarrow> int \<Rightarrow> nat \<Rightarrow> loop_state \<times> work list \<Rightarrow> loop_state \<times> work list" where
  "traced_loop n d N t =
     (if row_index (fst t) < N then traced_loop n d N (traced_body n d t) else t)"
  by pat_completeness auto
termination
  by (relation "measure (\<lambda>(n, d, N, t). N - row_index (fst t))")
    (auto simp: traced_body_def loop_body_def)

declare traced_loop.simps [simp del]

definition allocated_state :: "(nat \<Rightarrow> nat \<Rightarrow> int) \<Rightarrow> int \<Rightarrow> nat \<Rightarrow> loop_state" where
  "allocated_state fresh d N =
     \<lparr>result_matrix = map (\<lambda>r. map (fresh r) [0..<nat d]) [0..<N],
      current_multiset = replicate (nat d) 1,
      row_index = 0\<rparr>"

definition get_multisets_Cpp_run ::
  "(nat \<Rightarrow> nat \<Rightarrow> bool) \<Rightarrow> (nat \<Rightarrow> nat \<Rightarrow> int) \<Rightarrow> int \<Rightarrow> int \<Rightarrow> nat
     \<Rightarrow> (error + int list list) \<times> work list" where
  "get_multisets_Cpp_run fits fresh n d N =
     (if n \<le> 0 \<or> d < 0 then (Inl InvalidArgument, [])
      else if \<not> fits 0 (N * nat d) then (Inl AllocationError, [])
      else if \<not> fits (N * nat d) (nat d) then (Inl AllocationError, [Allocated N (nat d)])
      else
        (let t = traced_loop n d N
                   (allocated_state fresh d N, [Allocated N (nat d), Allocated 1 (nat d)])
         in (Inr (result_matrix (fst t)), snd t)))"

text \<open>
  Two machines. The first has the addresses of 64 bits and grants every request that
  they can hold: with doubles of 8 bytes no allocator grants more. The second grants
  requests up to a given number of entries.
\<close>

definition address_space_64 :: "nat \<Rightarrow> nat \<Rightarrow> bool" where
  "address_space_64 used k = ((used + k) * 8 < 2 ^ 64)"

definition at_most :: "nat \<Rightarrow> nat \<Rightarrow> nat \<Rightarrow> bool" where
  "at_most capacity used k = (used + k \<le> capacity)"

section \<open>The notions the specification speaks of\<close>

text \<open>
  A multiset of size \<open>d\<close> over \<open>{1, \<dots>, n}\<close> is written as its sorted tuple: a list of
  \<open>d\<close> entries between \<open>1\<close> and \<open>n\<close> that never decrease from left to right.
\<close>

definition multisets :: "int \<Rightarrow> nat \<Rightarrow> int list set" where
  "multisets n d = {xs. length xs = d \<and> sorted xs \<and> set xs \<subseteq> {1..n}}"

text \<open>
  Tuples are compared in the lexicographic order: the order \<open><\<close> on lists of
  \<open>HOL-Library.List_Lexorder\<close>, where the first entry that differs decides. The full
  sequence of the multisets is the list of all of them in increasing lexicographic order.
\<close>

definition all_multisets :: "int \<Rightarrow> nat \<Rightarrow> int list list" where
  "all_multisets n d = sorted_list_of_set (multisets n d)"

text \<open>
  The number of multisets, which the caller passes as \<open>N\<close>: the binomial coefficient
  \<open>choose(n + d - 1, d)\<close>.
\<close>

definition multiset_count :: "int \<Rightarrow> int \<Rightarrow> nat" where
  "multiset_count n d = nat (n + d - 1) choose nat d"

text \<open>
  Two notions for the proofs. The rows that \<open>N\<close> passes of the generation loop store:
  the vector of ones, its successor, the successor of that, and so on. And the sorted
  tuples of \<open>d\<close> entries over \<open>m\<close> consecutive values from \<open>lo\<close> on, which are counted by
  induction on \<open>m\<close> and \<open>d\<close>.
\<close>

definition rows_from :: "int \<Rightarrow> int \<Rightarrow> nat \<Rightarrow> int list list" where
  "rows_from n d N = map (\<lambda>k. (successor n d ^^ k) (replicate (nat d) 1)) [0..<N]"

definition sorted_tuples :: "int \<Rightarrow> nat \<Rightarrow> nat \<Rightarrow> int list set" where
  "sorted_tuples lo m d = {xs. length xs = d \<and> sorted xs \<and> set xs \<subseteq> {lo..<lo + int m}}"

section \<open>What the loops compute\<close>

subsection \<open>The generation loop iterates the successor\<close>

lemma while_loop_result:
  "row_index s \<le> N \<Longrightarrow> length (result_matrix s) = N \<Longrightarrow>
   result_matrix (while_loop n d N s) =
     take (row_index s) (result_matrix s) @
     map (\<lambda>k. (successor n d ^^ k) (current_multiset s)) [0..<N - row_index s]"
proof (induction n d N s rule: while_loop.induct)
  case (1 n d N s)
  show ?case
  proof (cases "row_index s < N")
    case False
    with "1.prems" show ?thesis by (simp add: while_loop.simps [of n d N s])
  next
    case True
    let ?s = "loop_body n d s"
    have r: "row_index ?s = Suc (row_index s)"
      and m: "result_matrix ?s = (result_matrix s)[row_index s := current_multiset s]"
      and c: "current_multiset ?s = successor n d (current_multiset s)"
      by (simp_all add: loop_body_def)
    have ih: "result_matrix (while_loop n d N ?s) =
        take (row_index ?s) (result_matrix ?s) @
        map (\<lambda>k. (successor n d ^^ k) (current_multiset ?s)) [0..<N - row_index ?s]"
      using "1.IH" [OF True] True "1.prems" by (simp add: r m)
    have t: "take (Suc (row_index s)) ((result_matrix s)[row_index s := current_multiset s]) =
        take (row_index s) (result_matrix s) @ [current_multiset s]"
      using True "1.prems" by (simp add: take_Suc_conv_app_nth)
    have u: "[0..<N - row_index s] = 0 # map Suc [0..<N - Suc (row_index s)]"
      using True by (metis Suc_diff_Suc map_Suc_upt upt_conv_Cons zero_less_diff)
    have "while_loop n d N s = while_loop n d N ?s"
      using True by (simp add: while_loop.simps [of n d N s])
    then show ?thesis
      by (simp add: ih r m c t u funpow_swap1 comp_def)
  qed
qed

lemma get_multisets_Cpp_rows:
  "1 \<le> n \<Longrightarrow> 0 \<le> d \<Longrightarrow> get_multisets_Cpp n d N = Inr (rows_from n d N)"
  by (simp add: get_multisets_Cpp_def rows_from_def while_loop_result initial_state_def)

subsection \<open>The successor step, position by position\<close>

lemma successor_loop_none:
  "\<forall>j<k. \<not> cur ! j < n \<Longrightarrow> successor_loop n d (int k - 1) cur = cur"
proof (induction k)
  case 0
  show ?case by (simp add: successor_loop.simps [of n d "- 1" cur])
next
  case (Suc k)
  then have "successor_loop n d (int k - 1) cur = cur" by simp
  moreover have "\<not> cur ! k < n" using Suc.prems by simp
  ultimately show ?case
    by (simp add: successor_loop.simps [of n d "int k" cur])
qed

lemma successor_loop_found:
  assumes "length cur = nat d" "i < k" "k \<le> nat d" "cur ! i < n"
    and "\<forall>j. i < j \<and> j < k \<longrightarrow> \<not> cur ! j < n"
  shows "successor_loop n d (int k - 1) cur = take i cur @ replicate (nat d - i) (cur ! i + 1)"
  using assms(2,3,5)
proof (induction k)
  case 0
  then show ?case by simp
next
  case (Suc k)
  show ?case
  proof (cases "i = k")
    case True
    let ?inc = "cur[i := cur ! i + 1]"
    have len: "i < length cur" using Suc.prems assms(1) True by simp
    have tk: "take (Suc i) ?inc = take i cur @ [cur ! i + 1]"
      using len by (simp add: take_Suc_conv_app_nth)
    show ?thesis
    proof (cases "int i < d - 1")
      case False
      then have "nat d = Suc i" using len assms(1) by linarith
      then show ?thesis
        using True assms(4) False len
        by (simp add: successor_loop.simps [of n d "int k" cur] upd_conv_take_nth_drop assms(1))
    next
      case lt: True
      have "fill_subvec ?inc (nat (int i + 1)) (nat (d - 1)) (?inc ! i) =
            take i cur @ replicate (nat d - i) (cur ! i + 1)"
      proof -
        have a: "nat (int i + 1) = Suc i" by simp
        have b: "Suc (nat (d - 1)) = nat d" using lt by linarith
        have c: "replicate (nat d - i) (cur ! i + 1) =
                 (cur ! i + 1) # replicate (nat d - Suc i) (cur ! i + 1)"
          using len assms(1) by (metis Suc_diff_Suc replicate_Suc)
        show ?thesis
          unfolding fill_subvec_def a b using len
          by (simp add: tk c assms(1))
      qed
      then show ?thesis
        using True assms(4) lt
        by (simp add: successor_loop.simps [of n d "int k" cur] Let_def)
    qed
  next
    case False
    then have ik: "i < k" using Suc.prems by simp
    then have "\<not> cur ! k < n" using Suc.prems by simp
    moreover have "successor_loop n d (int k - 1) cur =
                   take i cur @ replicate (nat d - i) (cur ! i + 1)"
      using Suc.IH ik Suc.prems by simp
    ultimately show ?thesis
      by (simp add: successor_loop.simps [of n d "int k" cur])
  qed
qed

lemma successor_split:
  assumes "length (ys @ x # zs) = nat d" "x < n" "\<forall>z\<in>set zs. \<not> z < n"
  shows "successor n d (ys @ x # zs) = ys @ replicate (Suc (length zs)) (x + 1)"
proof -
  let ?cur = "ys @ x # zs"
  have "\<forall>j. length ys < j \<and> j < nat d \<longrightarrow> \<not> ?cur ! j < n"
  proof (intro allI impI)
    fix j assume j: "length ys < j \<and> j < nat d"
    then have "?cur ! j = zs ! (j - Suc (length ys))"
      by (simp add: nth_append nth_Cons')
    moreover have "j - Suc (length ys) < length zs" using j assms(1) by (simp; linarith)
    ultimately show "\<not> ?cur ! j < n" using assms(3) by simp
  qed
  moreover have "length ys < nat d" using assms(1) by simp
  moreover have "?cur ! length ys < n" using assms(2) by simp
  moreover have "int (nat d) - 1 = d - 1" using assms(1) by (simp; linarith)
  ultimately have "successor_loop n d (d - 1) ?cur =
      take (length ys) ?cur @ replicate (nat d - length ys) (?cur ! length ys + 1)"
    using successor_loop_found [OF assms(1), of "length ys" "nat d" n] by simp
  moreover have "nat d - length ys = Suc (length zs)" using assms(1) by simp
  ultimately show ?thesis by (simp add: successor_def)
qed

lemma successor_top:
  assumes "length cur = nat d" "\<forall>z\<in>set cur. \<not> z < n"
  shows "successor n d cur = cur"
proof -
  have "\<forall>j<nat d. \<not> cur ! j < n" using assms by simp
  then have "successor_loop n d (int (nat d) - 1) cur = cur" by (rule successor_loop_none)
  moreover have "int (nat d) - 1 = d - 1 \<or> d < 0" by linarith
  moreover have "d < 0 \<Longrightarrow> successor_loop n d (d - 1) cur = cur"
    by (simp add: successor_loop.simps [of n d "d - 1" cur])
  ultimately show ?thesis by (auto simp: successor_def)
qed

subsection \<open>The successor is the next multiset in lexicographic order\<close>

lemma replicate_le_lex:
  "length ys = m \<Longrightarrow> \<forall>z\<in>set ys. (c::int) \<le> z \<Longrightarrow> replicate m c \<le> ys"
proof (induction ys arbitrary: m)
  case Nil
  then show ?case by simp
next
  case (Cons y ys)
  then obtain m' where m: "m = Suc m'" "length ys = m'" by auto
  with Cons show ?case by auto
qed

lemma lex_le_replicate:
  "length ys = m \<Longrightarrow> \<forall>z\<in>set ys. z \<le> (c::int) \<Longrightarrow> ys \<le> replicate m c"
proof (induction ys arbitrary: m)
  case Nil
  then show ?case by simp
next
  case (Cons y ys)
  then obtain m' where m: "m = Suc m'" "length ys = m'" by auto
  with Cons show ?case by auto
qed

lemma append_less_append: "(p @ xs < p @ ys) = (xs < (ys :: int list))"
  by (induction p) auto

lemma successor_least_above:
  "length ys = length p + Suc m \<Longrightarrow> sorted ys \<Longrightarrow> \<forall>z\<in>set ys. z \<le> (n::int) \<Longrightarrow>
   p @ v # replicate m n < ys \<Longrightarrow> p @ replicate (Suc m) (v + 1) \<le> ys"
proof (induction p arbitrary: ys)
  case Nil
  then obtain y ys' where ys: "ys = y # ys'" "length ys' = m" by (cases ys) auto
  have "\<forall>z\<in>set ys'. z \<le> n" using Nil.prems(3) ys by simp
  with ys(2) have "ys' \<le> replicate m n" by (rule lex_le_replicate)
  then have "\<not> replicate m n < ys'" by simp
  then have "v < y" using Nil.prems(4) ys by simp
  moreover have "\<forall>z\<in>set ys'. y \<le> z" using Nil.prems(2) ys by simp
  with ys(2) have "replicate m y \<le> ys'" by (rule replicate_le_lex)
  ultimately have "v + 1 < y \<or> v + 1 = y \<and> replicate m (v + 1) \<le> ys'"
    by (cases "v + 1 = y") auto
  then show ?case using ys by auto
next
  case (Cons a p)
  then obtain y ys' where ys: "ys = y # ys'" "length ys' = length p + Suc m" by (cases ys) auto
  show ?case
  proof (cases "a < y")
    case True
    then show ?thesis using ys by simp
  next
    case False
    then have "a = y" "p @ v # replicate m n < ys'" using Cons.prems(4) ys by auto
    moreover have "sorted ys'" "\<forall>z\<in>set ys'. z \<le> n" using Cons.prems ys by auto
    ultimately show ?thesis using Cons.IH [OF ys(2)] ys by simp
  qed
qed

lemma multisets_decompose:
  assumes "xs \<in> multisets n d" "xs \<noteq> replicate d n"
  obtains p v m where "xs = p @ v # replicate m n" "v < n"
proof -
  have "\<exists>x\<in>set xs. x < n"
  proof (rule ccontr)
    assume "\<not> (\<exists>x\<in>set xs. x < n)"
    then have "\<forall>x\<in>set xs. x = n" using assms(1) by (fastforce simp: multisets_def)
    then have "replicate (length xs) n = xs" by (rule replicate_length_same)
    then show False using assms by (simp add: multisets_def)
  qed
  then obtain ys x zs where s: "xs = ys @ x # zs" "x < n" "\<forall>z\<in>set zs. \<not> z < n"
    using split_list_last_prop [of xs "\<lambda>x. x < n"] by blast
  then have "\<forall>z\<in>set zs. z = n" using assms(1) by (fastforce simp: multisets_def)
  then have "replicate (length zs) n = zs" by (rule replicate_length_same)
  then show thesis using s that [of ys x "length zs"] by simp
qed

lemma successor_decomposed:
  "length p + Suc m = d \<Longrightarrow> v < n \<Longrightarrow>
   successor n (int d) (p @ v # replicate m n) = p @ replicate (Suc m) (v + 1)"
  using successor_split [of p v "replicate m n" "int d" n] by simp

lemma successor_in_multisets:
  assumes "xs \<in> multisets n d" "xs \<noteq> replicate d n"
  shows "successor n (int d) xs \<in> multisets n d"
proof -
  obtain p v m where s: "xs = p @ v # replicate m n" "v < n"
    using assms by (rule multisets_decompose)
  have len: "length p + Suc m = d" using assms(1) s by (simp add: multisets_def)
  have "sorted (p @ replicate (Suc m) (v + 1))"
    using assms(1) s unfolding multisets_def
    by (auto simp: sorted_append sorted_replicate) 
  moreover have "set (p @ replicate (Suc m) (v + 1)) \<subseteq> {1..n}"
    using assms(1) s unfolding multisets_def by auto
  ultimately show ?thesis
    using len s successor_decomposed [OF len s(2)] by (simp add: multisets_def)
qed

lemma successor_greater:
  assumes "xs \<in> multisets n d" "xs \<noteq> replicate d n"
  shows "xs < successor n (int d) xs"
proof -
  obtain p v m where s: "xs = p @ v # replicate m n" "v < n"
    using assms by (rule multisets_decompose)
  have len: "length p + Suc m = d" using assms(1) s by (simp add: multisets_def)
  show ?thesis
    unfolding s(1) successor_decomposed [OF len s(2)] by (simp add: append_less_append)
qed

lemma successor_least:
  assumes "xs \<in> multisets n d" "ys \<in> multisets n d" "xs < ys"
  shows "successor n (int d) xs \<le> ys"
proof -
  have top: "ys \<le> replicate d n"
    using assms(2) by (auto simp: multisets_def intro!: lex_le_replicate)
  then have "xs \<noteq> replicate d n" using assms(3) by auto
  with assms(1) obtain p v m where s: "xs = p @ v # replicate m n" "v < n"
    by (rule multisets_decompose)
  have len: "length p + Suc m = d" using assms(1) s by (simp add: multisets_def)
  have "length ys = length p + Suc m" "sorted ys" "\<forall>z\<in>set ys. z \<le> n"
    using assms(2) len by (auto simp: multisets_def)
  moreover have "p @ v # replicate m n < ys" using assms(3) s(1) by simp
  ultimately have "p @ replicate (Suc m) (v + 1) \<le> ys"
    by (rule successor_least_above)
  then show ?thesis unfolding s(1) successor_decomposed [OF len s(2)] .
qed

lemma successor_fixed:
  "successor n (int d) (replicate d n) = replicate d n"
  by (rule successor_top) auto

lemma multisets_top: "1 \<le> n \<Longrightarrow> replicate d n \<in> multisets n d"
  by (auto simp: multisets_def sorted_replicate)

lemma multisets_bot: "1 \<le> n \<Longrightarrow> replicate d 1 \<in> multisets n d"
  by (auto simp: multisets_def sorted_replicate)

lemma multisets_le_top: "xs \<in> multisets n d \<Longrightarrow> xs \<le> replicate d n"
  by (auto simp: multisets_def intro!: lex_le_replicate)

lemma multisets_ge_bot: "xs \<in> multisets n d \<Longrightarrow> replicate d 1 \<le> xs"
  by (auto simp: multisets_def intro!: replicate_le_lex)

subsection \<open>Counting the multisets\<close>

lemma sorted_tuples_no_value: "sorted_tuples lo 0 d = (if d = 0 then {[]} else {})"
  by (auto simp: sorted_tuples_def)

lemma sorted_tuples_no_entry: "sorted_tuples lo m 0 = {[]}"
  by (auto simp: sorted_tuples_def)

lemma sorted_tuples_split:
  "sorted_tuples lo (Suc m) (Suc d) =
     (#) lo ` sorted_tuples lo (Suc m) d \<union> sorted_tuples (lo + 1) m (Suc d)"
proof (intro set_eqI iffI)
  fix xs assume "xs \<in> sorted_tuples lo (Suc m) (Suc d)"
  then obtain x xs' where xs: "xs = x # xs'" "length xs' = d" "sorted (x # xs')"
      "set (x # xs') \<subseteq> {lo..<lo + int (Suc m)}"
    by (cases xs) (auto simp: sorted_tuples_def)
  show "xs \<in> (#) lo ` sorted_tuples lo (Suc m) d \<union> sorted_tuples (lo + 1) m (Suc d)"
  proof (cases "x = lo")
    case True
    have "xs' \<in> sorted_tuples lo (Suc m) d" using xs by (auto simp: sorted_tuples_def)
    then show ?thesis using xs(1) True by blast
  next
    case False
    then have "lo + 1 \<le> x" using xs(4) by auto
    then have "\<forall>z\<in>set (x # xs'). lo + 1 \<le> z" using xs(3) by auto
    then have "set (x # xs') \<subseteq> {lo + 1..<lo + 1 + int m}" using xs(4) by auto
    then show ?thesis using xs by (simp add: sorted_tuples_def)
  qed
next
  fix xs assume "xs \<in> (#) lo ` sorted_tuples lo (Suc m) d \<union> sorted_tuples (lo + 1) m (Suc d)"
  then show "xs \<in> sorted_tuples lo (Suc m) (Suc d)"
    by (fastforce simp: sorted_tuples_def)
qed

lemma sorted_tuples_disjoint:
  "(#) lo ` sorted_tuples lo (Suc m) d \<inter> sorted_tuples (lo + 1) m (Suc d) = {}"
  by (auto simp: sorted_tuples_def)

lemma sorted_tuples_card:
  "finite (sorted_tuples lo m d) \<and> card (sorted_tuples lo m d) = (m + d - 1) choose d"
proof (induction m arbitrary: lo d)
  case 0
  show ?case by (cases d) (simp_all add: sorted_tuples_no_value)
next
  case (Suc m)
  note outer = Suc.IH
  show ?case
  proof (induction d)
    case 0
    show ?case by (simp add: sorted_tuples_no_entry)
  next
    case (Suc d)
    let ?A = "(#) lo ` sorted_tuples lo (Suc m) d"
    let ?B = "sorted_tuples (lo + 1) m (Suc d)"
    have fa: "finite ?A" using Suc.IH by simp
    have fb: "finite ?B" using outer [of "lo + 1" "Suc d"] by simp
    have ca: "card ?A = (m + d) choose d"
      using Suc.IH by (simp add: card_image)
    have cb: "card ?B = (m + d) choose Suc d"
      using outer [of "lo + 1" "Suc d"] by simp
    have "card (?A \<union> ?B) = card ?A + card ?B"
      using fa fb sorted_tuples_disjoint by (rule card_Un_disjoint)
    then show ?case
      using fa fb by (simp add: sorted_tuples_split ca cb)
  qed
qed

lemma multisets_sorted_tuples: "multisets n d = sorted_tuples 1 (nat n) d"
  by (auto simp: multisets_def sorted_tuples_def)

lemma finite_multisets: "finite (multisets n d)"
  by (simp add: multisets_sorted_tuples sorted_tuples_card)

lemma card_multisets: "1 \<le> n \<Longrightarrow> card (multisets n d) = multiset_count n (int d)"
proof -
  assume "1 \<le> n"
  then have "nat (n + int d - 1) = nat n + d - 1" by linarith
  then show ?thesis
    by (simp add: multisets_sorted_tuples sorted_tuples_card multiset_count_def)
qed

subsection \<open>The iteration runs through the full sequence\<close>

lemma set_all_multisets: "set (all_multisets n d) = multisets n d"
  by (simp add: all_multisets_def finite_multisets)

lemma sorted_all_multisets: "sorted (all_multisets n d)"
  by (simp add: all_multisets_def)

lemma strict_sorted_all_multisets: "sorted_wrt (<) (all_multisets n d)"
  by (simp add: all_multisets_def)

lemma distinct_all_multisets: "distinct (all_multisets n d)"
  by (simp add: all_multisets_def)

lemma length_all_multisets: "1 \<le> n \<Longrightarrow> length (all_multisets n d) = multiset_count n (int d)"
  by (simp add: all_multisets_def card_multisets)

lemma all_multisets_nth_in:
  "k < length (all_multisets n d) \<Longrightarrow> all_multisets n d ! k \<in> multisets n d"
  using set_all_multisets nth_mem by blast

lemma all_multisets_index_less:
  assumes "i < length (all_multisets n d)" "j < length (all_multisets n d)"
    "all_multisets n d ! i < all_multisets n d ! j"
  shows "i < j"
proof (rule ccontr)
  assume "\<not> i < j"
  then have "j \<le> i" by simp
  then have "all_multisets n d ! j \<le> all_multisets n d ! i"
    using sorted_all_multisets assms(1) by (simp add: sorted_nth_mono)
  then show False using assms(3) by simp
qed

lemma iterate_is_nth:
  assumes "1 \<le> n"
  shows "k < length (all_multisets n d) \<Longrightarrow>
         (successor n (int d) ^^ k) (replicate d 1) = all_multisets n d ! k"
proof (induction k)
  case 0
  let ?L = "all_multisets n d"
  have "?L ! 0 \<in> multisets n d" using 0 by (rule all_multisets_nth_in)
  then have a: "replicate d 1 \<le> ?L ! 0" by (rule multisets_ge_bot)
  have "replicate d 1 \<in> set ?L" using assms by (simp add: set_all_multisets multisets_bot)
  then obtain j where j: "j < length ?L" "?L ! j = replicate d 1"
    by (auto simp: in_set_conv_nth)
  have "?L ! 0 \<le> ?L ! j" using sorted_all_multisets j(1) by (simp add: sorted_nth_mono)
  with a j(2) show ?case by simp
next
  case (Suc k)
  let ?L = "all_multisets n d"
  have k: "k < length ?L" using Suc.prems by simp
  have cur: "(successor n (int d) ^^ k) (replicate d 1) = ?L ! k" using Suc.IH k by simp
  have mk: "?L ! k \<in> multisets n d" using k by (rule all_multisets_nth_in)
  have mk1: "?L ! Suc k \<in> multisets n d" using Suc.prems by (rule all_multisets_nth_in)
  have lt: "?L ! k < ?L ! Suc k"
    using strict_sorted_all_multisets Suc.prems by (simp add: sorted_wrt_nth_less)
  have "?L ! Suc k \<le> replicate d n" using mk1 by (rule multisets_le_top)
  with lt have nt: "?L ! k \<noteq> replicate d n" by auto
  have le: "successor n (int d) (?L ! k) \<le> ?L ! Suc k"
    using mk mk1 lt by (rule successor_least)
  have "successor n (int d) (?L ! k) \<in> set ?L"
    using successor_in_multisets [OF mk nt] by (simp add: set_all_multisets)
  then obtain j where j: "j < length ?L" "?L ! j = successor n (int d) (?L ! k)"
    by (auto simp: in_set_conv_nth)
  have "?L ! k < ?L ! j" using successor_greater [OF mk nt] j(2) by simp
  with k j(1) have "k < j" by (rule all_multisets_index_less)
  then have "?L ! Suc k \<le> ?L ! j"
    using sorted_all_multisets j(1) by (simp add: sorted_nth_mono)
  with le j(2) have "successor n (int d) (?L ! k) = ?L ! Suc k" by simp
  then show ?case using cur by simp
qed

lemma rows_from_nth:
  "k < N \<Longrightarrow> rows_from n d N ! k = (successor n d ^^ k) (replicate (nat d) 1)"
  by (simp add: rows_from_def)

lemma length_rows_from: "length (rows_from n d N) = N"
  by (simp add: rows_from_def)

lemma rows_from_take: "M \<le> N \<Longrightarrow> take M (rows_from n d N) = rows_from n d M"
  by (simp add: rows_from_def take_map)

lemma rows_from_exact:
  assumes "1 \<le> n"
  shows "rows_from n (int d) (multiset_count n (int d)) = all_multisets n d"
proof (rule nth_equalityI)
  show "length (rows_from n (int d) (multiset_count n (int d))) = length (all_multisets n d)"
    using assms by (simp add: length_rows_from length_all_multisets)
next
  fix k assume "k < length (rows_from n (int d) (multiset_count n (int d)))"
  then have "k < length (all_multisets n d)" "k < multiset_count n (int d)"
    using assms by (simp_all add: length_rows_from length_all_multisets)
  then show "rows_from n (int d) (multiset_count n (int d)) ! k = all_multisets n d ! k"
    using iterate_is_nth [OF assms, of k d] by (simp add: rows_from_nth)
qed





subsection \<open>Every row, and the rows after the last multiset\<close>

lemma iterate_in_multisets:
  assumes "1 \<le> n"
  shows "(successor n (int d) ^^ k) (replicate d 1) \<in> multisets n d"
proof (induction k)
  case 0
  show ?case using assms by (simp add: multisets_bot)
next
  case (Suc k)
  show ?case
  proof (cases "(successor n (int d) ^^ k) (replicate d 1) = replicate d n")
    case True
    then show ?thesis using assms by (simp add: successor_fixed multisets_top)
  next
    case False
    with Suc show ?thesis by (simp add: successor_in_multisets)
  qed
qed

lemma iterate_step:
  assumes "1 \<le> n"
  shows "(successor n (int d) ^^ k) (replicate d 1) \<le> (successor n (int d) ^^ Suc k) (replicate d 1) \<and>
    ((successor n (int d) ^^ k) (replicate d 1) = (successor n (int d) ^^ Suc k) (replicate d 1)
       \<longrightarrow> (successor n (int d) ^^ k) (replicate d 1) = replicate d n)"
proof (cases "(successor n (int d) ^^ k) (replicate d 1) = replicate d n")
  case True
  then show ?thesis by (simp add: successor_fixed)
next
  case False
  with iterate_in_multisets [OF assms, of k d]
  have "(successor n (int d) ^^ k) (replicate d 1)
        < successor n (int d) ((successor n (int d) ^^ k) (replicate d 1))"
    by (rule successor_greater)
  then show ?thesis by (simp add: less_le)
qed


lemma rows_from_prefix:
  assumes "1 \<le> n" "count \<le> multiset_count n (int d)"
  shows "rows_from n (int d) count = take count (all_multisets n d)"
  using rows_from_take [OF assms(2), of n "int d"] rows_from_exact [OF assms(1), of d] by simp

subsection \<open>The call on a machine\<close>

lemma traced_loop_while_loop:
  "traced_loop n d N t =
     (while_loop n d N (fst t),
      snd t @ map (\<lambda>k. Stored (row_index (fst t) + k)
                        ((successor n d ^^ k) (current_multiset (fst t))))
                [0..<N - row_index (fst t)])"
proof (induction n d N t rule: traced_loop.induct)
  case (1 n d N t)
  show ?case
  proof (cases "row_index (fst t) < N")
    case False
    then show ?thesis
      by (simp add: traced_loop.simps [of n d N t] while_loop.simps [of n d N "fst t"])
  next
    case True
    let ?t = "traced_body n d t"
    have f: "fst ?t = loop_body n d (fst t)"
      and w: "snd ?t = snd t @ [Stored (row_index (fst t)) (current_multiset (fst t))]"
      by (simp_all add: traced_body_def)
    have r: "row_index (loop_body n d (fst t)) = Suc (row_index (fst t))"
      and c: "current_multiset (loop_body n d (fst t)) = successor n d (current_multiset (fst t))"
      by (simp_all add: loop_body_def)
    have u: "[0..<N - row_index (fst t)] = 0 # map Suc [0..<N - Suc (row_index (fst t))]"
      using True by (metis Suc_diff_Suc map_Suc_upt upt_conv_Cons zero_less_diff)
    have "traced_loop n d N t = traced_loop n d N ?t"
      using True by (simp add: traced_loop.simps [of n d N t])
    moreover have "while_loop n d N (fst t) = while_loop n d N (loop_body n d (fst t))"
      using True by (simp add: while_loop.simps [of n d N "fst t"])
    ultimately show ?thesis
      using "1.IH" [OF True] by (simp add: f w r c u funpow_swap1 comp_def)
  qed
qed

lemma traced_body_iterate_row_index:
  "row_index (fst ((traced_body n d ^^ k) t)) = row_index (fst t) + k"
  by (induction k) (simp_all add: traced_body_def loop_body_def)

lemma traced_loop_iterate:
  "traced_loop n d N t = (traced_body n d ^^ (N - row_index (fst t))) t"
proof (induction n d N t rule: traced_loop.induct)
  case (1 n d N t)
  show ?case
  proof (cases "row_index (fst t) < N")
    case False
    then show ?thesis by (simp add: traced_loop.simps [of n d N t])
  next
    case True
    then have "N - row_index (fst t) = Suc (N - row_index (fst (traced_body n d t)))"
      by (simp add: traced_body_def loop_body_def)
    moreover have "traced_loop n d N t = traced_loop n d N (traced_body n d t)"
      using True by (simp add: traced_loop.simps [of n d N t])
    ultimately show ?thesis using "1.IH" [OF True] by (simp add: funpow_swap1)
  qed
qed

lemma while_loop_allocated:
  "result_matrix (while_loop n d N (allocated_state fresh d N)) = rows_from n d N"
  using while_loop_result [of "allocated_state fresh d N" N n d]
  by (simp add: allocated_state_def rows_from_def)

lemma run_allocated:
  assumes "1 \<le> n" "0 \<le> d" "fits 0 (N * nat d)" "fits (N * nat d) (nat d)"
  shows "get_multisets_Cpp_run fits fresh n d N =
    (Inr (rows_from n d N),
     [Allocated N (nat d), Allocated 1 (nat d)]
       @ map (\<lambda>k. Stored k (rows_from n d N ! k)) [0..<N])"
proof -
  have a: "\<not> (n \<le> 0 \<or> d < 0)" using assms by auto
  have s: "map (\<lambda>k. Stored k ((successor n d ^^ k) (replicate (nat d) 1))) [0..<N]
      = map (\<lambda>k. Stored k (rows_from n d N ! k)) [0..<N]"
    by (simp add: rows_from_nth)
  have f: "current_multiset (allocated_state fresh d N) = replicate (nat d) 1"
    "row_index (allocated_state fresh d N) = 0"
    by (simp_all add: allocated_state_def)
  show ?thesis
    unfolding get_multisets_Cpp_run_def traced_loop_while_loop
    using a assms(3,4) by (simp add: while_loop_allocated f s)
qed

lemma run_not_allocated:
  assumes "1 \<le> n" "0 \<le> d" "\<not> (fits 0 (N * nat d) \<and> fits (N * nat d) (nat d))"
  shows "get_multisets_Cpp_run fits fresh n d N =
    (Inl AllocationError, if fits 0 (N * nat d) then [Allocated N (nat d)] else [])"
  using assms by (auto simp: get_multisets_Cpp_run_def)

lemma run_invalid:
  "n \<le> 0 \<or> d < 0 \<Longrightarrow> get_multisets_Cpp_run fits fresh n d N = (Inl InvalidArgument, [])"
  by (simp add: get_multisets_Cpp_run_def)



lemma run_no_store:
  assumes "1 \<le> n" "0 \<le> d" "\<not> (fits 0 (N * nat d) \<and> fits (N * nat d) (nat d))"
  shows "fst (get_multisets_Cpp_run fits fresh n d N) = Inl AllocationError
    \<and> (\<forall>k row. Stored k row \<notin> set (snd (get_multisets_Cpp_run fits fresh n d N)))"
  using run_not_allocated [OF assms, of fresh] by simp

lemma run_invalid_iff:
  "(fst (get_multisets_Cpp_run fits fresh n d N) = Inl InvalidArgument) = (n \<le> 0 \<or> d < 0)"
proof (cases "n \<le> 0 \<or> d < 0")
  case True
  then show ?thesis by (simp add: run_invalid)
next
  case False
  then have v: "1 \<le> n" "0 \<le> d" by auto
  show ?thesis
  proof (cases "fits 0 (N * nat d) \<and> fits (N * nat d) (nat d)")
    case True
    then show ?thesis using v False by (simp add: run_allocated)
  next
    case False
    from run_no_store [OF v this, of fresh] show ?thesis using v by auto
  qed
qed

section \<open>The claims\<close>

text \<open>
  In the specification the function is \<open>generate(n, d, count)\<close>; the source names it
  \<open>get_multisets_Cpp(n, d, N)\<close>. A row is a list of \<open>nat d\<close> entries, and \<open>xs < ys\<close> on
  rows is the lexicographic order. The claims about the table are stated on
  \<open>get_multisets_Cpp\<close>, the call whose memory is allocated. The claims about the errors
  of the call, about two calls with the same arguments, and about the passes of the
  loop are stated on \<open>get_multisets_Cpp_run\<close>, the call on a machine, which returns
  the table of \<open>get_multisets_Cpp\<close> whenever its two allocations succeed.
\<close>



text \<open>
  C2. For \<open>n \<ge> 1\<close>, \<open>d \<ge> 1\<close> and a current tuple of \<open>d\<close> entries that is non-decreasing
  with entries in \<open>{1, \<dots>, n}\<close>: when \<open>i\<close> is the first index, from \<open>d - 1\<close> down to
  \<open>0\<close>, whose entry is below \<open>n\<close> (no index to its right has one), the successor
  keeps the entries before \<open>i\<close>, and the entry at \<open>i\<close> and every entry to its right
  become the old entry at \<open>i\<close> plus one; when no entry is below \<open>n\<close>, the tuple is \<open>d\<close>
  times \<open>n\<close> and the successor leaves it as it is.
\<close>

theorem successor_scan:
  assumes "1 \<le> n" "1 \<le> d" "length cur = nat d" "sorted cur" "set cur \<subseteq> {1..n}"
  shows "(i < nat d \<and> cur ! i < n \<and> (\<forall>j. i < j \<and> j < nat d \<longrightarrow> \<not> cur ! j < n)
           \<longrightarrow> successor n d cur = take i cur @ replicate (nat d - i) (cur ! i + 1))
       \<and> ((\<forall>j<nat d. \<not> cur ! j < n) \<longrightarrow> successor n d cur = cur \<and> cur = replicate (nat d) n)"
proof (intro conjI impI)
  assume a: "i < nat d \<and> cur ! i < n \<and> (\<forall>j. i < j \<and> j < nat d \<longrightarrow> \<not> cur ! j < n)"
  have "int (nat d) - 1 = d - 1" using assms(2) by simp
  then show "successor n d cur = take i cur @ replicate (nat d - i) (cur ! i + 1)"
    using successor_loop_found [OF assms(3), of i "nat d" n] a by (simp add: successor_def)
next
  assume a: "\<forall>j<nat d. \<not> cur ! j < n"
  then have "\<forall>z\<in>set cur. \<not> z < n" using assms(3) by (auto simp: in_set_conv_nth)
  then show "successor n d cur = cur" using assms(3) by (intro successor_top) 
next
  assume a: "\<forall>j<nat d. \<not> cur ! j < n"
  then have "\<forall>z\<in>set cur. \<not> z < n" using assms(3) by (auto simp: in_set_conv_nth)
  then have "\<forall>z\<in>set cur. z = n" using assms(5) by fastforce
  then have "replicate (length cur) n = cur" by (rule replicate_length_same)
  then show "cur = replicate (nat d) n" using assms(3) by simp
qed

text \<open>
  The theorem at \<open>n = 3\<close>, \<open>d = 3\<close>: the first entry below \<open>3\<close> is at index \<open>0\<close> in
  \<open>[1,3,3]\<close> and at index \<open>1\<close> in \<open>[1,2,3]\<close>, and \<open>[3,3,3]\<close> has none.
\<close>

theorem successor_scan_witness:
  "successor 3 3 [1, 3, 3] = [2, 2, 2] \<and> successor 3 3 [1, 2, 3] = [1, 3, 3]
   \<and> successor 3 3 [3, 3, 3] = [3, 3, 3]"
proof -
  have h: "(1::int) \<le> 3" "length [1, 3, 3 :: int] = nat 3" "sorted [1, 3, 3 :: int]"
    "set [1, 3, 3 :: int] \<subseteq> {1..3}" "length [1, 2, 3 :: int] = nat 3" "sorted [1, 2, 3 :: int]"
    "set [1, 2, 3 :: int] \<subseteq> {1..3}" "length [3, 3, 3 :: int] = nat 3" "sorted [3, 3, 3 :: int]"
    "set [3, 3, 3 :: int] \<subseteq> {1..3}"
    by simp_all
  have j: "\<forall>j. 0 < j \<and> j < nat 3 \<longrightarrow> \<not> [1, 3, 3 :: int] ! j < 3"
    "\<forall>j. 1 < j \<and> j < nat 3 \<longrightarrow> \<not> [1, 2, 3 :: int] ! j < 3"
    "\<forall>j<nat 3. \<not> [3, 3, 3 :: int] ! j < 3"
    by (simp_all add: nth_Cons' less_Suc_eq eval_nat_numeral)
  have "successor 3 3 [1, 3, 3] = take 0 [1, 3, 3] @ replicate (nat 3 - 0) ([1, 3, 3] ! 0 + 1)"
    using successor_scan [OF h(1) h(1) h(2) h(3) h(4), of 0] j(1) by simp
  moreover have
    "successor 3 3 [1, 2, 3] = take 1 [1, 2, 3] @ replicate (nat 3 - 1) ([1, 2, 3] ! 1 + 1)"
    using successor_scan [OF h(1) h(1) h(5) h(6) h(7), of 1] j(2) by simp
  moreover have "successor 3 3 [3, 3, 3] = [3, 3, 3]"
    using successor_scan [OF h(1) h(1) h(8) h(9) h(10), of 0] j(3) by blast
  ultimately show ?thesis by (simp add: eval_nat_numeral)
qed

text \<open>
  C3 says that the rows are strictly increasing, and no two of them equal, whatever
  \<open>count\<close> is. With \<open>n = 2\<close> and \<open>d = 1\<close> there are two multisets; asked for three rows, the
  function stores the last one twice.
\<close>

theorem generate_any_count_counterexample:
  "get_multisets_Cpp 2 1 3 = Inr [[1], [2], [2]]
   \<and> \<not> sorted_wrt (<) [[1], [2], [2 :: int]] \<and> \<not> distinct [[1], [2], [2 :: int]]"
proof -
  have "get_multisets_Cpp 2 1 3 = Inr [[1], [2], [2]]" by code_simp
  then show ?thesis by simp
qed

text \<open>
  C3, amended. For \<open>n \<ge> 1\<close>, \<open>d \<ge> 0\<close> and \<open>count\<close> at most the number of multisets
  \<open>choose(n + d - 1, d)\<close>, the call succeeds, the rows of the table are strictly
  increasing in lexicographic order from first to last, and no two rows are equal.
\<close>

theorem generate_strictly_increasing:
  assumes "1 \<le> n" "0 \<le> d" "count \<le> multiset_count n d"
  shows "\<exists>rows. get_multisets_Cpp n d count = Inr rows \<and> length rows = count
    \<and> sorted_wrt (<) rows \<and> distinct rows"
proof -
  let ?L = "all_multisets n (nat d)"
  have d: "int (nat d) = d" using assms(2) by simp
  have "rows_from n d count = take count ?L"
    using rows_from_prefix [OF assms(1), of count "nat d"] assms(3) unfolding d .
  then have "get_multisets_Cpp n d count = Inr (take count ?L)"
    using assms by (simp add: get_multisets_Cpp_rows)
  moreover have "length (take count ?L) = count"
    using length_all_multisets [OF assms(1), of "nat d"] assms(3) unfolding d by simp
  moreover have "sorted_wrt (<) (take count ?L)"
    using strict_sorted_all_multisets by (rule sorted_wrt_take)
  moreover have "distinct (take count ?L)"
    using distinct_all_multisets by (rule distinct_take)
  ultimately show ?thesis by blast
qed

text \<open>The amended claim at \<open>n = 3\<close>, \<open>d = 2\<close>, \<open>count = 4\<close>, below the six multisets.\<close>

theorem generate_strictly_increasing_witness:
  "(1::int) \<le> 3 \<and> (0::int) \<le> 2 \<and> 4 \<le> multiset_count 3 2
   \<and> get_multisets_Cpp 3 2 4 = Inr [[1, 1], [1, 2], [1, 3], [2, 2]]
   \<and> sorted_wrt (<) [[1, 1], [1, 2], [1, 3], [2, 2 :: int]]
   \<and> distinct [[1, 1], [1, 2], [1, 3], [2, 2 :: int]]"
proof -
  have h1: "(1::int) \<le> 3" and h2: "(0::int) \<le> 2" by simp_all
  have c: "multiset_count 3 2 = 6" by code_simp
  then have h3: "4 \<le> multiset_count 3 2" by simp
  have r: "get_multisets_Cpp 3 2 4 = Inr [[1, 1], [1, 2], [1, 3], [2, 2]]" by code_simp
  from generate_strictly_increasing [OF h1 h2 h3] obtain rows where
    "get_multisets_Cpp 3 2 4 = Inr rows" "sorted_wrt (<) rows" "distinct rows" by blast
  then show ?thesis using h3 r by auto
qed





text \<open>
  C6 says that for \<open>n \<ge> 1\<close> and \<open>d \<ge> 0\<close> no error is ever raised, whatever \<open>count\<close> is.
  With \<open>n = 1\<close>, \<open>d = 2\<close> and \<open>count = 2 ^ 62\<close> the matrix has \<open>2 ^ 63\<close> entries of 8 bytes,
  more than addresses of 64 bits can hold: the constructor of the matrix throws.
\<close>

theorem generate_no_error_counterexample:
  "(1::int) \<le> 1 \<and> (0::int) \<le> 2
   \<and> fst (get_multisets_Cpp_run address_space_64 (\<lambda>r c. 0) 1 2 (2 ^ 62)) = Inl AllocationError"
  by (simp add: get_multisets_Cpp_run_def address_space_64_def)

text \<open>
  C6, amended. The call fails with \<open>InvalidArgument\<close> exactly when \<open>n \<le> 0\<close> or \<open>d < 0\<close>,
  on every machine and for every \<open>count\<close>; that failure comes before any generation
  work: nothing has been allocated and no row has been stored. So \<open>n = 0\<close> fails and
  \<open>d = -1\<close> fails. For \<open>n \<ge> 1\<close> and \<open>d \<ge> 0\<close> no error is raised whenever the table of
  \<open>count\<close> rows by \<open>d\<close> columns and the tuple of \<open>d\<close> entries can be allocated: the call
  then returns the table of \<open>count\<close> rows, each stored by the loop. When one of them
  cannot be allocated, the call fails with an allocation error, and no row has been
  stored.
\<close>

theorem generate_invalid_argument:
  "(fst (get_multisets_Cpp_run fits fresh n d count) = Inl InvalidArgument) = (n \<le> 0 \<or> d < 0)
   \<and> (n \<le> 0 \<or> d < 0 \<longrightarrow>
        get_multisets_Cpp_run fits fresh n d count = (Inl InvalidArgument, [])
        \<and> get_multisets_Cpp n d count = Inl InvalidArgument)
   \<and> (1 \<le> n \<and> 0 \<le> d \<and> fits 0 (count * nat d) \<and> fits (count * nat d) (nat d) \<longrightarrow>
        (\<exists>rows. get_multisets_Cpp_run fits fresh n d count =
                  (Inr rows, [Allocated count (nat d), Allocated 1 (nat d)]
                               @ map (\<lambda>k. Stored k (rows ! k)) [0..<count])
               \<and> length rows = count
               \<and> get_multisets_Cpp n d count = Inr rows))
   \<and> (1 \<le> n \<and> 0 \<le> d \<and> \<not> (fits 0 (count * nat d) \<and> fits (count * nat d) (nat d)) \<longrightarrow>
        fst (get_multisets_Cpp_run fits fresh n d count) = Inl AllocationError
        \<and> (\<forall>k row. Stored k row \<notin> set (snd (get_multisets_Cpp_run fits fresh n d count))))
   \<and> get_multisets_Cpp_run fits fresh 0 d count = (Inl InvalidArgument, [])
   \<and> get_multisets_Cpp_run fits fresh n (- 1) count = (Inl InvalidArgument, [])"
proof (intro conjI impI)
  show "(fst (get_multisets_Cpp_run fits fresh n d count) = Inl InvalidArgument)
      = (n \<le> 0 \<or> d < 0)"
    by (rule run_invalid_iff)
next
  assume "n \<le> 0 \<or> d < 0"
  then show "get_multisets_Cpp_run fits fresh n d count = (Inl InvalidArgument, [])"
    by (rule run_invalid)
next
  assume "n \<le> 0 \<or> d < 0"
  then show "get_multisets_Cpp n d count = Inl InvalidArgument"
    by (simp add: get_multisets_Cpp_def)
next
  assume a: "1 \<le> n \<and> 0 \<le> d \<and> fits 0 (count * nat d) \<and> fits (count * nat d) (nat d)"
  then have "get_multisets_Cpp_run fits fresh n d count =
      (Inr (rows_from n d count), [Allocated count (nat d), Allocated 1 (nat d)]
          @ map (\<lambda>k. Stored k (rows_from n d count ! k)) [0..<count])
    \<and> length (rows_from n d count) = count
    \<and> get_multisets_Cpp n d count = Inr (rows_from n d count)"
    by (simp add: run_allocated length_rows_from get_multisets_Cpp_rows)
  then show "\<exists>rows. get_multisets_Cpp_run fits fresh n d count =
                  (Inr rows, [Allocated count (nat d), Allocated 1 (nat d)]
                               @ map (\<lambda>k. Stored k (rows ! k)) [0..<count])
               \<and> length rows = count
               \<and> get_multisets_Cpp n d count = Inr rows"
    by (rule exI)
next
  assume a: "1 \<le> n \<and> 0 \<le> d \<and> \<not> (fits 0 (count * nat d) \<and> fits (count * nat d) (nat d))"
  then show "fst (get_multisets_Cpp_run fits fresh n d count) = Inl AllocationError"
    using run_no_store [of n d fits count fresh] by blast
next
  assume a: "1 \<le> n \<and> 0 \<le> d \<and> \<not> (fits 0 (count * nat d) \<and> fits (count * nat d) (nat d))"
  then show "\<forall>k row. Stored k row \<notin> set (snd (get_multisets_Cpp_run fits fresh n d count))"
    using run_no_store [of n d fits count fresh] by blast
next
  show "get_multisets_Cpp_run fits fresh 0 d count = (Inl InvalidArgument, [])"
    by (simp add: run_invalid)
next
  show "get_multisets_Cpp_run fits fresh n (- 1) count = (Inl InvalidArgument, [])"
    by (simp add: run_invalid)
qed

text \<open>
  The amended claim at two calls with a bad argument, at a call with \<open>n = 2\<close>, \<open>d = 2\<close>,
  \<open>count = 3\<close> whose memory is allocated, left by the allocator filled with sevens, and
  at the same call on a machine that has seven entries to give, where eight are needed.
\<close>

theorem generate_invalid_argument_witness:
  "get_multisets_Cpp_run address_space_64 (\<lambda>r c. 7) 0 2 3 = (Inl InvalidArgument, [])
   \<and> get_multisets_Cpp_run address_space_64 (\<lambda>r c. 7) 3 (- 1) 3 = (Inl InvalidArgument, [])
   \<and> get_multisets_Cpp_run address_space_64 (\<lambda>r c. 7) 2 2 3
       = (Inr [[1, 1], [1, 2], [2, 2]],
          [Allocated 3 2, Allocated 1 2, Stored 0 [1, 1], Stored 1 [1, 2], Stored 2 [2, 2]])
   \<and> fst (get_multisets_Cpp_run (at_most 7) (\<lambda>r c. 7) 2 2 3) = Inl AllocationError"
proof -
  let ?f = "\<lambda>(r::nat) (c::nat). (7::int)"
  have i1: "(0::int) \<le> 0 \<or> (2::int) < 0" and i2: "(3::int) \<le> 0 \<or> (- 1::int) < 0" by simp_all
  have a: "(1::int) \<le> 2 \<and> (0::int) \<le> 2 \<and> address_space_64 0 (3 * nat 2)
      \<and> address_space_64 (3 * nat 2) (nat 2)"
    by (simp add: address_space_64_def)
  have b: "(1::int) \<le> 2 \<and> (0::int) \<le> 2
      \<and> \<not> (at_most 7 0 (3 * nat 2) \<and> at_most 7 (3 * nat 2) (nat 2))"
    by (simp add: at_most_def)
  have r: "get_multisets_Cpp 2 2 3 = Inr [[1, 1], [1, 2], [2, 2]]" by code_simp
  have "get_multisets_Cpp_run address_space_64 ?f 0 2 3 = (Inl InvalidArgument, [])"
    using generate_invalid_argument [of address_space_64 ?f 0 2 3] i1 by blast
  moreover have "get_multisets_Cpp_run address_space_64 ?f 3 (- 1) 3 = (Inl InvalidArgument, [])"
    using generate_invalid_argument [of address_space_64 ?f 3 "- 1" 3] i2 by blast
  moreover have "fst (get_multisets_Cpp_run (at_most 7) ?f 2 2 3) = Inl AllocationError"
    using generate_invalid_argument [of "at_most 7" ?f 2 2 3] b by blast
  moreover have "get_multisets_Cpp_run address_space_64 ?f 2 2 3
       = (Inr [[1, 1], [1, 2], [2, 2]],
          [Allocated 3 2, Allocated 1 2, Stored 0 [1, 1], Stored 1 [1, 2], Stored 2 [2, 2]])"
  proof -
    from generate_invalid_argument [of address_space_64 ?f 2 2 3] a obtain rows where
      x: "get_multisets_Cpp_run address_space_64 ?f 2 2 3 =
            (Inr rows, [Allocated 3 (nat 2), Allocated 1 (nat 2)]
                         @ map (\<lambda>k. Stored k (rows ! k)) [0..<3])"
      and y: "get_multisets_Cpp 2 2 3 = Inr rows"
      by blast
    from y r have "rows = [[1, 1], [1, 2], [2, 2]]" by simp
    with x show ?thesis by (simp add: upt_rec)
  qed
  ultimately show ?thesis by blast
qed

text \<open>
  C7. For \<open>n \<ge> 1\<close>, \<open>d \<ge> 0\<close> and every \<open>count\<close>, also one above the number of multisets,
  every row of the table has \<open>d\<close> entries, is non-decreasing from left to right, and
  has all its entries between \<open>1\<close> and \<open>n\<close>.
\<close>

theorem generate_rows_sorted_in_range:
  assumes "1 \<le> n" "0 \<le> d"
  shows "\<exists>rows. get_multisets_Cpp n d count = Inr rows
    \<and> (\<forall>r\<in>set rows. length r = nat d \<and> sorted r
          \<and> (\<forall>i j. i \<le> j \<and> j < nat d \<longrightarrow> r ! i \<le> r ! j)
          \<and> (\<forall>x\<in>set r. 1 \<le> x \<and> x \<le> n))"
proof -
  have d: "int (nat d) = d" using assms(2) by simp
  have "\<forall>r\<in>set (rows_from n d count). r \<in> multisets n (nat d)"
    using iterate_in_multisets [OF assms(1), of _ "nat d"] unfolding d
    by (auto simp: rows_from_def)
  then have "\<forall>r\<in>set (rows_from n d count). length r = nat d \<and> sorted r
          \<and> (\<forall>i j. i \<le> j \<and> j < nat d \<longrightarrow> r ! i \<le> r ! j)
          \<and> (\<forall>x\<in>set r. 1 \<le> x \<and> x \<le> n)"
    by (fastforce simp: multisets_def sorted_nth_mono)
  then show ?thesis using assms by (simp add: get_multisets_Cpp_rows)
qed

text \<open>The theorem at \<open>n = 3\<close>, \<open>d = 2\<close>, \<open>count = 7\<close>, one row more than the six multisets.\<close>

theorem generate_rows_sorted_in_range_witness:
  "(1::int) \<le> 3 \<and> (0::int) \<le> 2
   \<and> get_multisets_Cpp 3 2 7 = Inr [[1, 1], [1, 2], [1, 3], [2, 2], [2, 3], [3, 3], [3, 3]]
   \<and> sorted [2, 3 :: int] \<and> sorted [3, 3 :: int]"
proof -
  have h1: "(1::int) \<le> 3" and h2: "(0::int) \<le> 2" by simp_all
  have r: "get_multisets_Cpp 3 2 7 = Inr [[1, 1], [1, 2], [1, 3], [2, 2], [2, 3], [3, 3], [3, 3]]"
    by code_simp
  from generate_rows_sorted_in_range [OF h1 h2, of 7] obtain rows where
    a: "get_multisets_Cpp 3 2 7 = Inr rows" and b: "\<forall>r\<in>set rows. sorted r"
    by blast
  from a r have "rows = [[1, 1], [1, 2], [1, 3], [2, 2], [2, 3], [3, 3], [3, 3]]" by simp
  with b have "sorted [2, 3 :: int]" "sorted [3, 3 :: int]" by simp_all
  then show ?thesis using r by simp
qed

text \<open>
  C8. For \<open>n \<ge> 1\<close>, \<open>d \<ge> 1\<close> and every \<open>count\<close>, two consecutive rows \<open>k\<close> and \<open>k + 1\<close> of
  the table are in lexicographic order, row \<open>k\<close> at most row \<open>k + 1\<close>, and they are equal
  only when row \<open>k\<close> is the terminal tuple, \<open>d\<close> times \<open>n\<close>.
\<close>

theorem generate_rows_weakly_increasing:
  assumes "1 \<le> n" "1 \<le> d"
  shows "\<exists>rows. get_multisets_Cpp n d count = Inr rows \<and> length rows = count
    \<and> (\<forall>k. Suc k < count \<longrightarrow>
          rows ! k \<le> rows ! Suc k
          \<and> (rows ! k = rows ! Suc k \<longrightarrow> rows ! k = replicate (nat d) n))"
proof -
  have d: "int (nat d) = d" using assms(2) by simp
  have "\<forall>k. Suc k < count \<longrightarrow>
          rows_from n d count ! k \<le> rows_from n d count ! Suc k
          \<and> (rows_from n d count ! k = rows_from n d count ! Suc k
               \<longrightarrow> rows_from n d count ! k = replicate (nat d) n)"
  proof (intro allI impI)
    fix k assume k: "Suc k < count"
    then have e1: "rows_from n d count ! k = (successor n d ^^ k) (replicate (nat d) 1)"
      by (simp add: rows_from_nth)
    have e2: "rows_from n d count ! Suc k = (successor n d ^^ Suc k) (replicate (nat d) 1)"
      using k by (rule rows_from_nth)
    show "rows_from n d count ! k \<le> rows_from n d count ! Suc k
          \<and> (rows_from n d count ! k = rows_from n d count ! Suc k
               \<longrightarrow> rows_from n d count ! k = replicate (nat d) n)"
      unfolding e1 e2
      using iterate_step [OF assms(1), where d = "nat d" and k = k] unfolding d .
  qed
  then show ?thesis using assms by (simp add: get_multisets_Cpp_rows length_rows_from)
qed

text \<open>The theorem at \<open>n = 2\<close>, \<open>d = 2\<close>, \<open>count = 4\<close>, at the rows \<open>1, 2\<close> and \<open>2, 3\<close>.\<close>

theorem generate_rows_weakly_increasing_witness:
  "(1::int) \<le> 2 \<and> get_multisets_Cpp 2 2 4 = Inr [[1, 1], [1, 2], [2, 2], [2, 2]]
   \<and> [1, 2 :: int] \<le> [2, 2] \<and> [2, 2 :: int] \<le> [2, 2] \<and> [2, 2] = replicate (nat 2) (2 :: int)"
proof -
  have h1: "(1::int) \<le> 2" by simp
  have r: "get_multisets_Cpp 2 2 4 = Inr [[1, 1], [1, 2], [2, 2], [2, 2]]" by code_simp
  from generate_rows_weakly_increasing [OF h1 h1, of 4] obtain rows where
    a: "get_multisets_Cpp 2 2 4 = Inr rows"
    and b: "\<forall>k. Suc k < 4 \<longrightarrow> rows ! k \<le> rows ! Suc k
          \<and> (rows ! k = rows ! Suc k \<longrightarrow> rows ! k = replicate (nat 2) 2)"
    by blast
  from a r have e: "rows = [[1, 1], [1, 2], [2, 2], [2, 2]]" by simp
  have k1: "Suc 1 < (4::nat)" and k2: "Suc 2 < (4::nat)" by simp_all
  have "rows ! 1 \<le> rows ! Suc 1" using b [rule_format, OF k1] by blast
  moreover have "rows ! 2 \<le> rows ! Suc 2
      \<and> (rows ! 2 = rows ! Suc 2 \<longrightarrow> rows ! 2 = replicate (nat 2) 2)"
    using b [rule_format, OF k2] .
  ultimately have "[1, 2 :: int] \<le> [2, 2]" "[2, 2 :: int] \<le> [2, 2]"
    "[2, 2] = replicate (nat 2) (2 :: int)"
    unfolding e by (simp_all add: eval_nat_numeral)
  then show ?thesis using r by simp
qed



text \<open>
  C10 says that for every \<open>count\<close> the loop runs \<open>count\<close> times and \<open>count\<close> rows are
  produced. With \<open>n = 2\<close>, \<open>d = 3\<close> and \<open>count = 2 ^ 62\<close> the matrix does not fit addresses
  of 64 bits: the call ends in the constructor of the matrix, before the loop, and no
  row is stored.
\<close>

theorem generate_count_rows_counterexample:
  "(1::int) \<le> 2 \<and> (0::int) \<le> 3
   \<and> get_multisets_Cpp_run address_space_64 (\<lambda>r c. 0) 2 3 (2 ^ 62) = (Inl AllocationError, [])"
  by (simp add: get_multisets_Cpp_run_def address_space_64_def)

text \<open>
  C10, amended. For \<open>n \<ge> 1\<close>, \<open>d \<ge> 0\<close> and every \<open>count\<close> the call terminates. Whenever
  the table of \<open>count\<close> rows by \<open>d\<close> columns and the tuple of \<open>d\<close> entries can be allocated,
  also with \<open>d = 0\<close>, with \<open>count = 0\<close> and with \<open>count\<close> above the number of multisets,
  the loop makes exactly \<open>count\<close> passes and exactly \<open>count\<close> rows are produced: the
  work of the call is the two allocations and then \<open>count\<close> stores, the store of pass
  \<open>k\<close> putting the \<open>k\<close>-th iterate of the successor into row \<open>k\<close> of the returned table,
  which is the table of \<open>get_multisets_Cpp\<close>. Otherwise the call ends with an
  allocation error and no store. The loop ends in the state that \<open>count\<close> passes through
  its body reach: its test \<open>row_index < count\<close> holds before each of these passes and
  fails after the last.
\<close>

theorem generate_terminates:
  assumes "1 \<le> n" "0 \<le> d"
  shows "(fits 0 (count * nat d) \<and> fits (count * nat d) (nat d) \<longrightarrow>
          (\<exists>rows. get_multisets_Cpp_run fits fresh n d count =
                    (Inr rows, [Allocated count (nat d), Allocated 1 (nat d)]
                                 @ map (\<lambda>k. Stored k (rows ! k)) [0..<count])
                 \<and> length rows = count
                 \<and> (\<forall>k<count. rows ! k = (successor n d ^^ k) (replicate (nat d) 1))
                 \<and> get_multisets_Cpp n d count = Inr rows))
    \<and> (\<not> (fits 0 (count * nat d) \<and> fits (count * nat d) (nat d)) \<longrightarrow>
          fst (get_multisets_Cpp_run fits fresh n d count) = Inl AllocationError
          \<and> (\<forall>k row. Stored k row
                \<notin> set (snd (get_multisets_Cpp_run fits fresh n d count))))
    \<and> traced_loop n d count (allocated_state fresh d count, w)
        = (traced_body n d ^^ count) (allocated_state fresh d count, w)
    \<and> (\<forall>k<count. row_index (fst ((traced_body n d ^^ k) (allocated_state fresh d count, w)))
                    < count)
    \<and> \<not> row_index (fst ((traced_body n d ^^ count) (allocated_state fresh d count, w))) < count"
proof (intro conjI impI)
  assume a: "fits 0 (count * nat d) \<and> fits (count * nat d) (nat d)"
  have "get_multisets_Cpp_run fits fresh n d count =
      (Inr (rows_from n d count), [Allocated count (nat d), Allocated 1 (nat d)]
          @ map (\<lambda>k. Stored k (rows_from n d count ! k)) [0..<count])
    \<and> length (rows_from n d count) = count
    \<and> (\<forall>k<count. rows_from n d count ! k = (successor n d ^^ k) (replicate (nat d) 1))
    \<and> get_multisets_Cpp n d count = Inr (rows_from n d count)"
    using assms a by (simp add: run_allocated length_rows_from get_multisets_Cpp_rows rows_from_nth)
  then show "\<exists>rows. get_multisets_Cpp_run fits fresh n d count =
                    (Inr rows, [Allocated count (nat d), Allocated 1 (nat d)]
                                 @ map (\<lambda>k. Stored k (rows ! k)) [0..<count])
                 \<and> length rows = count
                 \<and> (\<forall>k<count. rows ! k = (successor n d ^^ k) (replicate (nat d) 1))
                 \<and> get_multisets_Cpp n d count = Inr rows"
    by (rule exI)
next
  assume "\<not> (fits 0 (count * nat d) \<and> fits (count * nat d) (nat d))"
  then show "fst (get_multisets_Cpp_run fits fresh n d count) = Inl AllocationError"
    using run_no_store [OF assms, of fits count fresh] by blast
next
  assume "\<not> (fits 0 (count * nat d) \<and> fits (count * nat d) (nat d))"
  then show "\<forall>k row. Stored k row
                \<notin> set (snd (get_multisets_Cpp_run fits fresh n d count))"
    using run_no_store [OF assms, of fits count fresh] by blast
next
  have z: "row_index (fst (allocated_state fresh d count, w)) = 0"
    by (simp add: allocated_state_def)
  show "traced_loop n d count (allocated_state fresh d count, w)
        = (traced_body n d ^^ count) (allocated_state fresh d count, w)"
    using traced_loop_iterate [of n d count "(allocated_state fresh d count, w)"]
    by (simp only: z diff_zero)
  show "\<forall>k<count. row_index (fst ((traced_body n d ^^ k) (allocated_state fresh d count, w)))
                    < count"
    by (simp add: traced_body_iterate_row_index allocated_state_def)
  show "\<not> row_index (fst ((traced_body n d ^^ count) (allocated_state fresh d count, w))) < count"
    by (simp add: traced_body_iterate_row_index allocated_state_def)
qed

text \<open>
  The amended claim at \<open>n = 3\<close>, \<open>d = 2\<close>, \<open>count = 8\<close>, two rows more than the six
  multisets, in memory that holds nines before it is written: eight passes, eight
  stores, eight rows. On a machine with ten entries to give, where eighteen are
  needed, the call ends with the allocation error.
\<close>

theorem generate_terminates_witness:
  "(1::int) \<le> 3 \<and> (0::int) \<le> 2
   \<and> get_multisets_Cpp_run address_space_64 (\<lambda>r c. 9) 3 2 8 =
       (Inr [[1, 1], [1, 2], [1, 3], [2, 2], [2, 3], [3, 3], [3, 3], [3, 3]],
        [Allocated 8 2, Allocated 1 2, Stored 0 [1, 1], Stored 1 [1, 2], Stored 2 [1, 3],
         Stored 3 [2, 2], Stored 4 [2, 3], Stored 5 [3, 3], Stored 6 [3, 3], Stored 7 [3, 3]])
   \<and> fst (get_multisets_Cpp_run (at_most 10) (\<lambda>r c. 9) 3 2 8) = Inl AllocationError"
proof -
  let ?f = "\<lambda>(r::nat) (c::nat). (9::int)"
  have h1: "(1::int) \<le> 3" and h2: "(0::int) \<le> 2" by simp_all
  have a: "address_space_64 0 (8 * nat 2) \<and> address_space_64 (8 * nat 2) (nat 2)"
    by (simp add: address_space_64_def)
  have b: "\<not> (at_most 10 0 (8 * nat 2) \<and> at_most 10 (8 * nat 2) (nat 2))"
    by (simp add: at_most_def)
  have r: "get_multisets_Cpp 3 2 8 =
      Inr [[1, 1], [1, 2], [1, 3], [2, 2], [2, 3], [3, 3], [3, 3], [3, 3]]" by code_simp
  from generate_terminates [OF h1 h2, of address_space_64 8 ?f] a obtain rows where
    x: "get_multisets_Cpp_run address_space_64 ?f 3 2 8 =
          (Inr rows, [Allocated 8 (nat 2), Allocated 1 (nat 2)]
                       @ map (\<lambda>k. Stored k (rows ! k)) [0..<8])"
    and y: "get_multisets_Cpp 3 2 8 = Inr rows"
    by blast
  from y r have "rows = [[1, 1], [1, 2], [1, 3], [2, 2], [2, 3], [3, 3], [3, 3], [3, 3]]"
    by simp
  with x have "get_multisets_Cpp_run address_space_64 ?f 3 2 8 =
       (Inr [[1, 1], [1, 2], [1, 3], [2, 2], [2, 3], [3, 3], [3, 3], [3, 3]],
        [Allocated 8 2, Allocated 1 2, Stored 0 [1, 1], Stored 1 [1, 2], Stored 2 [1, 3],
         Stored 3 [2, 2], Stored 4 [2, 3], Stored 5 [3, 3], Stored 6 [3, 3], Stored 7 [3, 3]])"
    by (simp add: upt_rec)
  moreover have "fst (get_multisets_Cpp_run (at_most 10) ?f 3 2 8) = Inl AllocationError"
    using generate_terminates [OF h1 h2, of "at_most 10" 8 ?f] b by blast
  ultimately show ?thesis by simp
qed

end
